theory Spec2Isabelle
  imports Main
begin

section \<open>Data model\<close>

text \<open>
  Go's \<^verbatim>\<open>int\<close> is modelled as \<^typ>\<open>int\<close>: every integer the queue computes is a
  counter or an index bounded by the length of a slice, so no operation wraps around.
  A Go \<^verbatim>\<open>string\<close> is a byte sequence, here a \<^typ>\<open>string\<close>. An \<^verbatim>\<open>error\<close> built by
  \<^verbatim>\<open>errors.New\<close> is modelled by its message; \<^verbatim>\<open>nil\<close> is \<^term>\<open>None\<close>.
  A \<^verbatim>\<open>*task\<close> is \<^term>\<open>None\<close> (nil) or the address of a task in the heap.
\<close>

type_synonym error = string
type_synonym ptr = "nat option"

text \<open>Go's \<^verbatim>\<open>%\<close> truncates towards zero; the caller checks the divisor.\<close>

definition go_rem :: "int \<Rightarrow> int \<Rightarrow> int" where
  "go_rem a b = sgn a * (\<bar>a\<bar> mod \<bar>b\<bar>)"

subsection \<open>Ring buffer\<close>

record ringBuffer =
  MaxSize :: int
  CurrentSize :: int
  IsFull :: bool
  items :: "ptr list"
  head :: int
  tail :: int

text \<open>
  The literal \<^verbatim>\<open>&ringBuffer{MaxSize: size, items: &rbItems}\<close> over
  \<^verbatim>\<open>make([]*task, size)\<close>, as \<^verbatim>\<open>Init\<close> builds it; every other field has its zero value.
\<close>

definition newRingBuffer :: "int \<Rightarrow> ringBuffer" where
  "newRingBuffer sz =
     \<lparr>MaxSize = sz, CurrentSize = 0, IsFull = False,
      items = replicate (nat sz) None, head = 0, tail = 0\<rparr>"

text \<open>
  \<^verbatim>\<open>Enqueue\<close> and \<^verbatim>\<open>Dequeue\<close> return \<^term>\<open>None\<close> where the Go runtime panics
  (integer division by zero, index out of range), else the returned value and the
  updated buffer.
\<close>

definition Enqueue :: "ringBuffer \<Rightarrow> ptr \<Rightarrow> (error option \<times> ringBuffer) option" where
  "Enqueue rb task =
     (if CurrentSize rb = MaxSize rb
      then Some (Some ''Can't enqueue, ring buffer is full.'', rb)
      else if MaxSize rb = 0 then None
      else
        let rb1 = rb\<lparr>tail := go_rem (head rb + CurrentSize rb) (MaxSize rb)\<rparr>;
            rb2 = rb1\<lparr>CurrentSize := CurrentSize rb1 + 1\<rparr>
        in if tail rb2 < 0 \<or> int (length (items rb2)) \<le> tail rb2 then None
           else
             let rb3 = rb2\<lparr>items := (items rb2)[nat (tail rb2) := task]\<rparr>
             in Some (None,
                  if CurrentSize rb3 = MaxSize rb3 then rb3\<lparr>IsFull := True\<rparr> else rb3))"

definition Dequeue :: "ringBuffer \<Rightarrow> (ptr \<times> ringBuffer) option" where
  "Dequeue rb =
     (if CurrentSize rb = 0 then Some (None, rb)
      else if head rb < 0 \<or> int (length (items rb)) \<le> head rb then None
      else
        let task = items rb ! nat (head rb);
            rb1 = rb\<lparr>items := (items rb)[nat (head rb) := None]\<rparr>
        in if MaxSize rb1 = 0 then None
           else Some (task,
                  rb1\<lparr>head := go_rem (head rb1 + 1) (MaxSize rb1),
                      CurrentSize := CurrentSize rb1 - 1,
                      IsFull := False\<rparr>))"

subsection \<open>Task\<close>

text \<open>
  The caller's action is opaque: a function of the parameter bundle that acts on the
  world outside the queue (of type \<^typ>\<open>'w\<close>) and reports an error or \<^verbatim>\<open>nil\<close>. The
  bundle \<^verbatim>\<open>map[string]interface{}\<close> is a map to values of type \<^typ>\<open>'v\<close>; a \<^verbatim>\<open>nil\<close>
  action or bundle is \<^term>\<open>None\<close>.
\<close>

type_synonym 'v paramMap = "(string \<rightharpoonup> 'v) option"
type_synonym ('v, 'w) func = "((string \<rightharpoonup> 'v) \<Rightarrow> 'w \<Rightarrow> error option \<times> 'w) option"

definition ready :: string where "ready = ''r''"
definition waiting :: string where "waiting = ''w''"
definition processing :: string where "processing = ''p''"

record ('v, 'w) task =
  state :: string
  action :: "('v, 'w) func"
  params :: "'v paramMap"
  id' :: int
  externalId :: string

text \<open>The zero value \<^verbatim>\<open>task{}\<close>.\<close>

definition zeroTask :: "('v, 'w) task" where
  "zeroTask = \<lparr>state = [], action = None, params = None, id' = 0, externalId = []\<rparr>"

definition SetStateReady :: "('v, 'w) task \<Rightarrow> ('v, 'w) task" where
  "SetStateReady t = t\<lparr>state := ready\<rparr>"

definition SetStateWaiting :: "('v, 'w) task \<Rightarrow> ('v, 'w) task" where
  "SetStateWaiting t = t\<lparr>state := waiting\<rparr>"

definition SetStateProcessing :: "('v, 'w) task \<Rightarrow> ('v, 'w) task" where
  "SetStateProcessing t = t\<lparr>state := processing\<rparr>"

definition SetAction :: "('v, 'w) func \<Rightarrow> ('v, 'w) task \<Rightarrow> ('v, 'w) task" where
  "SetAction act t = t\<lparr>action := act\<rparr>"

definition SetParams :: "'v paramMap \<Rightarrow> ('v, 'w) task \<Rightarrow> ('v, 'w) task" where
  "SetParams prm t = t\<lparr>params := prm\<rparr>"

definition SetExternalId :: "string \<Rightarrow> ('v, 'w) task \<Rightarrow> ('v, 'w) task" where
  "SetExternalId ext t = t\<lparr>externalId := ext\<rparr>"

definition SetId :: "int \<Rightarrow> ('v, 'w) task \<Rightarrow> ('v, 'w) task" where
  "SetId n t = t\<lparr>id' := n\<rparr>"

definition Clean :: "('v, 'w) task \<Rightarrow> ('v, 'w) task" where
  "Clean t = SetExternalId [] (SetParams None (SetAction None (SetStateReady t)))"

text \<open>
  \<^verbatim>\<open>CallAction\<close> takes the world and returns it with the result: where the action is
  not invoked the world comes back as it was.
\<close>

definition CallAction :: "('v, 'w) task \<Rightarrow> 'w \<Rightarrow> error option \<times> 'w" where
  "CallAction t w =
     (case (action t, params t) of
        (Some f, Some p) \<Rightarrow> f p w
      | _ \<Rightarrow> (Some ''Task action and/or params are nil, cannot make call.'', w))"

subsection \<open>Identifiers\<close>

text \<open>
  \<^verbatim>\<open>strings.TrimSpace\<close> of Go's library removes leading and trailing white space as
  \<^verbatim>\<open>unicode.IsSpace\<close> defines it: the six ASCII characters and, in UTF-8, U+0085,
  U+00A0, U+1680, U+2000 to U+200A, U+2028, U+2029, U+202F, U+205F and U+3000. A byte
  that starts no such encoding ends the trimming.
\<close>

definition spaceRunes :: "string list" where
  "spaceRunes =
     map (\<lambda>c. [c]) [CHR 0x09, CHR 0x0A, CHR 0x0B, CHR 0x0C, CHR 0x0D, CHR 0x20] @
     [[CHR 0xC2, CHR 0x85], [CHR 0xC2, CHR 0xA0], [CHR 0xE1, CHR 0x9A, CHR 0x80]] @
     map (\<lambda>c. [CHR 0xE2, CHR 0x80, c])
       [CHR 0x80, CHR 0x81, CHR 0x82, CHR 0x83, CHR 0x84, CHR 0x85, CHR 0x86, CHR 0x87,
        CHR 0x88, CHR 0x89, CHR 0x8A, CHR 0xA8, CHR 0xA9, CHR 0xAF] @
     [[CHR 0xE2, CHR 0x81, CHR 0x9F], [CHR 0xE3, CHR 0x80, CHR 0x80]]"

fun trimLeft :: "string list \<Rightarrow> string \<Rightarrow> string" where
  "trimLeft rs [] = []"
| "trimLeft rs (c # cs) =
     (if [c] \<in> set rs then trimLeft rs cs
      else if take 2 (c # cs) \<in> set rs then trimLeft rs (drop 1 cs)
      else if take 3 (c # cs) \<in> set rs then trimLeft rs (drop 2 cs)
      else c # cs)"

definition TrimSpace :: "string \<Rightarrow> string" where
  "TrimSpace s = rev (trimLeft (map rev spaceRunes) (rev (trimLeft spaceRunes s)))"

subsection \<open>Queue\<close>

record FixedSizeQueue =
  Name :: string
  items' :: ringBuffer
  tasksById :: "int \<rightharpoonup> ptr"
  waitingTasksByExternalId :: "string \<rightharpoonup> ptr"
  readyTaskPool :: "ptr list"
  countProcessing :: int
  maxProcessing :: int
  taskCount :: int
  isRunning :: bool

definition Init :: "int \<Rightarrow> string \<Rightarrow> int \<Rightarrow> FixedSizeQueue" where
  "Init sz name maxProcessCount =
     (let sz = (if sz \<le> 0 then 1 else sz);
          rb = newRingBuffer sz
      in \<lparr>Name = name, items' = rb, tasksById = Map.empty,
          waitingTasksByExternalId = Map.empty, readyTaskPool = [],
          countProcessing = 0, maxProcessing = maxProcessCount, taskCount = 0,
          isRunning = False\<rparr>)"

definition Start :: "FixedSizeQueue \<Rightarrow> FixedSizeQueue" where
  "Start q = q\<lparr>isRunning := True\<rparr>"

definition Stop :: "FixedSizeQueue \<Rightarrow> FixedSizeQueue" where
  "Stop q = q\<lparr>isRunning := False\<rparr>"

definition IsRunning :: "FixedSizeQueue \<Rightarrow> bool" where
  "IsRunning q = isRunning q"

definition isValidId :: "FixedSizeQueue \<Rightarrow> string \<Rightarrow> bool \<times> error option" where
  "isValidId q ident =
     (let trimmed = TrimSpace ident
      in if length trimmed = 0
         then (False, Some ''Id for task is not valid, only uses space characters.'')
         else case waitingTasksByExternalId q ident of
                Some _ \<Rightarrow> (False, Some ''Id for task is already waiting to be processed.'')
              | None \<Rightarrow> (True, None))"

definition popTask :: "ptr list \<Rightarrow> ptr \<times> ptr list" where
  "popTask tasks =
     (let len = length tasks
      in if len = 0 then (None, tasks)
         else (tasks ! (len - 1), take (len - 1) tasks))"

subsection \<open>The running system\<close>

text \<open>
  Tasks are heap objects that the ring buffer, both indexes, the pool and the spawned
  goroutines share by pointer. The heap is the list of all task objects allocated so
  far, an address being an index into it; \<^verbatim>\<open>&task{}\<close> appends a zero task. The field
  \<open>goroutines\<close> holds the argument of every \<^verbatim>\<open>go q.actionWrapper(task)\<close> that has been
  spawned and has not yet run. Dereferencing \<^verbatim>\<open>nil\<close> is a panic, the result
  \<^term>\<open>None\<close>. A pointer of Go that is not \<^verbatim>\<open>nil\<close> cannot dangle; in the model
  this is part of the invariant below: every address a reachable system holds is
  below the length of the heap.
\<close>

record ('v, 'w) system =
  heap :: "('v, 'w) task list"
  queue :: FixedSizeQueue
  goroutines :: "ptr list"
  world :: 'w

definition initial :: "int \<Rightarrow> string \<Rightarrow> int \<Rightarrow> 'w \<Rightarrow> ('v, 'w) system" where
  "initial sz name maxProcessCount w =
     \<lparr>heap = [], queue = Init sz name maxProcessCount, goroutines = [], world = w\<rparr>"

definition processTask :: "('v, 'w) system \<Rightarrow> ('v, 'w) system option" where
  "processTask s =
     (let q = queue s
      in if countProcessing q \<ge> maxProcessing q then Some s
         else case Dequeue (items' q) of
                None \<Rightarrow> None
              | Some (None, rb) \<Rightarrow> Some (s\<lparr>queue := q\<lparr>items' := rb\<rparr>\<rparr>)
              | Some (Some a, rb) \<Rightarrow>
                  let t = heap s ! a;
                      q1 = q\<lparr>items' := rb,
                             waitingTasksByExternalId :=
                               (waitingTasksByExternalId q)(externalId t := None)\<rparr>;
                      q2 = q1\<lparr>countProcessing := countProcessing q1 + 1\<rparr>
                  in Some (s\<lparr>heap := (heap s)[a := SetStateProcessing t],
                             queue := q2,
                             goroutines := goroutines s @ [Some a]\<rparr>))"

definition actionWrapper :: "('v, 'w) system \<Rightarrow> ptr \<Rightarrow> ('v, 'w) system option" where
  "actionWrapper s task =
     (case task of
        None \<Rightarrow> None
      | Some a \<Rightarrow>
          let (err, w) = CallAction (heap s ! a) (world s);
              s1 = s\<lparr>world := w, heap := (heap s)[a := Clean (heap s ! a)]\<rparr>;
              q = queue s1;
              q1 = q\<lparr>readyTaskPool := readyTaskPool q @ [Some a]\<rparr>;
              q2 = q1\<lparr>countProcessing := countProcessing q1 - 1\<rparr>
          in processTask (s1\<lparr>queue := q2\<rparr>))"

definition Add ::
  "('v, 'w) system \<Rightarrow> ('v, 'w) func \<Rightarrow> 'v paramMap \<Rightarrow> string \<Rightarrow>
     (error option \<times> ('v, 'w) system) option" where
  "Add s act prm ident =
     (let q = queue s
      in if \<not> isRunning q
         then Some (Some (''FixedSizeQueue '' @ Name q @
                      '' is not running. Try starting and then adding.''), s)
         else if IsFull (items' q)
         then Some (Some (''FixedSizeQueue '' @ Name q @
                      '' has no capacity at this time. Try later.''), s)
         else case snd (isValidId q ident) of
                Some err \<Rightarrow> Some (Some err, s)
              | None \<Rightarrow>
                  (let (taskToUse, s1) =
                         (if length (readyTaskPool q) > 0
                          then let (t, pool) = popTask (readyTaskPool q)
                               in (t, s\<lparr>queue := q\<lparr>readyTaskPool := pool\<rparr>\<rparr>)
                          else let a = length (heap s);
                                   q1 = q\<lparr>taskCount := taskCount q + 1\<rparr>;
                                   t = SetId (taskCount q1) zeroTask;
                                   q2 = q1\<lparr>tasksById := (tasksById q1)(id' t \<mapsto> Some a)\<rparr>
                               in (Some a, s\<lparr>heap := heap s @ [t], queue := q2\<rparr>))
                   in (case taskToUse of
                         None \<Rightarrow> None
                       | Some a \<Rightarrow>
                           (let t = SetExternalId ident (SetParams prm (SetAction act
                                      (SetStateWaiting (heap s1 ! a))));
                                q3 = queue s1;
                                q4 = q3\<lparr>waitingTasksByExternalId :=
                                          (waitingTasksByExternalId q3)(ident \<mapsto> Some a)\<rparr>
                            in (case Enqueue (items' q4) (Some a) of
                                  None \<Rightarrow> None
                                | Some (_, rb) \<Rightarrow>
                                    (case processTask
                                            (s1\<lparr>heap := (heap s1)[a := t],
                                                queue := q4\<lparr>items' := rb\<rparr>\<rparr>) of
                                       None \<Rightarrow> None
                                     | Some s2 \<Rightarrow> Some (None, s2)))))))"

text \<open>
  What can happen to a system: the caller starts or stops the queue or calls \<^verbatim>\<open>Add\<close>,
  or the \<open>k\<close>-th spawned goroutine runs \<^verbatim>\<open>actionWrapper\<close>. Each happens as one step:
  the source takes no lock, and the model takes the calls one at a time. An event
  naming no spawned goroutine changes nothing.
\<close>

datatype ('v, 'w) event =
    EvStart
  | EvStop
  | EvAdd "('v, 'w) func" "'v paramMap" string
  | EvDone nat

fun fire :: "('v, 'w) system \<Rightarrow> ('v, 'w) event \<Rightarrow> ('v, 'w) system option" where
  "fire s EvStart = Some (s\<lparr>queue := Start (queue s)\<rparr>)"
| "fire s EvStop = Some (s\<lparr>queue := Stop (queue s)\<rparr>)"
| "fire s (EvAdd act prm ident) = map_option snd (Add s act prm ident)"
| "fire s (EvDone k) =
     (if k < length (goroutines s)
      then actionWrapper
             (s\<lparr>goroutines := take k (goroutines s) @ drop (Suc k) (goroutines s)\<rparr>)
             (goroutines s ! k)
      else Some s)"

fun run :: "('v, 'w) system \<Rightarrow> ('v, 'w) event list \<Rightarrow> ('v, 'w) system option" where
  "run s [] = Some s"
| "run s (e # es) = (case fire s e of None \<Rightarrow> None | Some s' \<Rightarrow> run s' es)"

section \<open>Invariants\<close>

text \<open>
  The shape of a ring buffer of capacity \<open>N\<close>, and the tasks it holds in the order
  \<^verbatim>\<open>Dequeue\<close> will return them: \<open>CurrentSize\<close> slots from \<open>head\<close> on, wrapping around.
\<close>

definition wf_rb :: "int \<Rightarrow> ringBuffer \<Rightarrow> bool" where
  "wf_rb N rb \<longleftrightarrow>
     MaxSize rb = N \<and> int (length (items rb)) = N \<and>
     0 \<le> CurrentSize rb \<and> CurrentSize rb \<le> N \<and> 0 \<le> head rb \<and> head rb < N"

definition ring_inv :: "int \<Rightarrow> ringBuffer \<Rightarrow> bool" where
  "ring_inv N rb \<longleftrightarrow>
     wf_rb N rb \<and> IsFull rb = (CurrentSize rb = N) \<and> 0 \<le> tail rb \<and> tail rb < N"

definition queued :: "ringBuffer \<Rightarrow> ptr list" where
  "queued rb =
     map (\<lambda>i. items rb ! nat ((head rb + int i) mod MaxSize rb))
       [0..<nat (CurrentSize rb)]"

text \<open>Sequences of ring buffer operations.\<close>

datatype rb_op = OpEnqueue ptr | OpDequeue

fun rb_fire :: "ringBuffer \<Rightarrow> rb_op \<Rightarrow> ringBuffer option" where
  "rb_fire rb (OpEnqueue t) = map_option snd (Enqueue rb t)"
| "rb_fire rb OpDequeue = map_option snd (Dequeue rb)"

fun rb_run :: "ringBuffer \<Rightarrow> rb_op list \<Rightarrow> ringBuffer option" where
  "rb_run rb [] = Some rb"
| "rb_run rb (x # xs) = (case rb_fire rb x of None \<Rightarrow> None | Some rb' \<Rightarrow> rb_run rb' xs)"

text \<open>
  Where the tasks of a system are: waiting in the buffer, held by a goroutine, or in
  the pool. The invariant of a queue of capacity \<open>N\<close> and concurrency limit \<open>M\<close>:
  every allocated task is in exactly one of the three places and in the matching
  state, the counters count what they name, and the waiting index holds exactly the
  external ids of the tasks in the buffer.
\<close>

definition cells :: "('v, 'w) system \<Rightarrow> ptr list" where
  "cells s = queued (items' (queue s)) @ goroutines s @ readyTaskPool (queue s)"

definition sys_inv :: "int \<Rightarrow> int \<Rightarrow> ('v, 'w) system \<Rightarrow> bool" where
  "sys_inv N M s \<longleftrightarrow>
     ring_inv N (items' (queue s)) \<and>
     maxProcessing (queue s) = M \<and>
     countProcessing (queue s) = int (length (goroutines s)) \<and>
     countProcessing (queue s) \<le> max 0 M \<and>
     taskCount (queue s) = int (length (heap s)) \<and>
     int (length (heap s)) \<le> N + max 0 M \<and>
     distinct (cells s) \<and>
     set (cells s) = Some ` {..<length (heap s)} \<and>
     (\<forall>ident p. waitingTasksByExternalId (queue s) ident = Some p \<longleftrightarrow>
        (\<exists>a. p = Some a \<and> Some a \<in> set (queued (items' (queue s))) \<and>
             externalId (heap s ! a) = ident)) \<and>
     (\<forall>a. Some a \<in> set (queued (items' (queue s))) \<longrightarrow>
        state (heap s ! a) = waiting \<and> TrimSpace (externalId (heap s ! a)) \<noteq> []) \<and>
     (\<forall>a. Some a \<in> set (goroutines s) \<longrightarrow>
        state (heap s ! a) = processing \<and> TrimSpace (externalId (heap s ! a)) \<noteq> []) \<and>
     (\<forall>a. Some a \<in> set (readyTaskPool (queue s)) \<longrightarrow> state (heap s ! a) = ready) \<and>
     (\<forall>a < length (heap s).
        id' (heap s ! a) = int a + 1 \<and>
        tasksById (queue s) (int a + 1) = Some (Some a))"

section \<open>Properties of the ring buffer\<close>

lemma go_rem_nonneg: "0 \<le> a \<Longrightarrow> 0 < b \<Longrightarrow> go_rem a b = a mod b"
  by (cases "a = 0") (simp_all add: go_rem_def)

lemma mod_slot_neq:
  fixes h i j N :: int
  assumes "i < j" "j - i < N"
  shows "(h + i) mod N \<noteq> (h + j) mod N"
proof
  assume "(h + i) mod N = (h + j) mod N"
  then have "N dvd ((h + j) - (h + i))"
    by (metis mod_eq_dvd_iff)
  then have "N dvd (j - i)" by simp
  with assms show False
    by (meson zdvd_not_zless diff_gt_0_iff_gt)
qed

lemma Enqueue_ok:
  assumes wf: "wf_rb N rb" and room: "CurrentSize rb < N"
  shows "\<exists>rb'. Enqueue rb t = Some (None, rb') \<and> wf_rb N rb' \<and>
           queued rb' = queued rb @ [t] \<and> CurrentSize rb' = CurrentSize rb + 1 \<and>
           head rb' = head rb \<and>
           tail rb' = (head rb + CurrentSize rb) mod N \<and>
           IsFull rb' = (IsFull rb \<or> CurrentSize rb + 1 = N)"
proof -
  let ?h = "head rb" and ?n = "CurrentSize rb"
  let ?tl = "(?h + ?n) mod N"
  from wf room have N: "0 < N" and h: "0 \<le> ?h" "?h < N" and n: "0 \<le> ?n"
    and len: "int (length (items rb)) = N" and M: "MaxSize rb = N"
    by (auto simp: wf_rb_def)
  have rem: "go_rem (?h + ?n) N = ?tl"
    using h n N by (simp add: go_rem_nonneg)
  have tl: "0 \<le> ?tl" "?tl < N" using N by simp_all
  define rb' where "rb' = (let r = rb\<lparr>tail := ?tl, CurrentSize := ?n + 1,
       items := (items rb)[nat ?tl := t]\<rparr> in if ?n + 1 = N then r\<lparr>IsFull := True\<rparr> else r)"
  have inr: "\<not> (?tl < 0 \<or> N \<le> ?tl)" using tl by linarith
  have E: "Enqueue rb t = Some (None, rb')"
    using room inr len N M rem by (simp add: Enqueue_def rb'_def Let_def)
  have f: "MaxSize rb' = N" "head rb' = ?h" "CurrentSize rb' = ?n + 1"
    "items rb' = (items rb)[nat ?tl := t]" "tail rb' = ?tl"
    "IsFull rb' = (IsFull rb \<or> ?n + 1 = N)"
    using M by (auto simp: rb'_def Let_def)
  have w: "wf_rb N rb'"
    using wf room by (simp add: wf_rb_def f)
  have nn: "nat (?n + 1) = Suc (nat ?n)" using n by simp
  have old: "(items rb)[nat ?tl := t] ! nat ((?h + int i) mod N) = items rb ! nat ((?h + int i) mod N)"
    if "i < nat ?n" for i
  proof -
    have "(?h + int i) mod N \<noteq> (?h + ?n) mod N"
      using that n room by (intro mod_slot_neq) auto
    moreover have "0 \<le> (?h + int i) mod N" using N by simp
    ultimately have "nat ((?h + int i) mod N) \<noteq> nat ?tl" using tl by linarith
    then show ?thesis by simp
  qed
  have new: "(items rb)[nat ?tl := t] ! nat ((?h + int (nat ?n)) mod N) = t"
    using n tl len by simp
  have q: "queued rb' = queued rb @ [t]"
    unfolding queued_def f nn M using old new by simp
  show ?thesis using E w q f by blast
qed

lemma Dequeue_ok:
  assumes wf: "wf_rb N rb" and ne: "0 < CurrentSize rb"
  shows "\<exists>x rb'. Dequeue rb = Some (x, rb') \<and> wf_rb N rb' \<and>
           queued rb = x # queued rb' \<and> CurrentSize rb' = CurrentSize rb - 1 \<and>
           head rb' = (head rb + 1) mod N \<and> tail rb' = tail rb \<and> \<not> IsFull rb'"
proof -
  let ?h = "head rb" and ?n = "CurrentSize rb"
  from wf ne have N: "0 < N" and h: "0 \<le> ?h" "?h < N" and n: "?n \<le> N"
    and len: "int (length (items rb)) = N" and M: "MaxSize rb = N"
    by (auto simp: wf_rb_def)
  have rem: "go_rem (?h + 1) N = (?h + 1) mod N"
    using h N by (simp add: go_rem_nonneg)
  define rb' where "rb' = rb\<lparr>items := (items rb)[nat ?h := None],
       head := (?h + 1) mod N, CurrentSize := ?n - 1, IsFull := False\<rparr>"
  have D: "Dequeue rb = Some (items rb ! nat ?h, rb')"
    using ne h len N M rem by (simp add: Dequeue_def rb'_def Let_def)
  have f: "MaxSize rb' = N" "head rb' = (?h + 1) mod N" "CurrentSize rb' = ?n - 1"
    "items rb' = (items rb)[nat ?h := None]" "tail rb' = tail rb" "\<not> IsFull rb'"
    using M by (auto simp: rb'_def)
  have w: "wf_rb N rb'"
    using wf ne N by (simp add: wf_rb_def f)
  have nn: "nat ?n = Suc (nat (?n - 1))" using ne by simp
  have rest: "(items rb)[nat ?h := None] ! nat (((?h + 1) mod N + int i) mod N)
                = items rb ! nat ((?h + int (Suc i)) mod N)"
    if "i < nat (?n - 1)" for i
  proof -
    have e: "((?h + 1) mod N + int i) mod N = (?h + int (Suc i)) mod N"
      by (simp add: mod_simps algebra_simps)
    have "(?h + 0) mod N \<noteq> (?h + int (Suc i)) mod N"
      using that n by (intro mod_slot_neq) auto
    then have "?h \<noteq> (?h + int (Suc i)) mod N" using h by simp
    moreover have "0 \<le> (?h + int (Suc i)) mod N" using N by simp
    ultimately have "nat ((?h + int (Suc i)) mod N) \<noteq> nat ?h" using h by linarith
    then show ?thesis unfolding e by simp
  qed
  have first: "items rb ! nat ((?h + int 0) mod N) = items rb ! nat ?h"
    using h by simp
  have "queued rb = items rb ! nat ?h # map (\<lambda>i. items rb ! nat ((?h + int (Suc i)) mod N)) [0..<nat (?n - 1)]"
    unfolding queued_def M nn upt_conv_Cons[OF zero_less_Suc] map_Suc_upt[symmetric]
    using first by (simp del: upt_Suc)
  also have "map (\<lambda>i. items rb ! nat ((?h + int (Suc i)) mod N)) [0..<nat (?n - 1)] = queued rb'"
    unfolding queued_def f using rest by simp
  finally show ?thesis using D w f by blast
qed


lemma ring_step:
  assumes "ring_inv N rb"
  shows "\<exists>rb'. rb_fire rb x = Some rb' \<and> ring_inv N rb'"
proof (cases x)
  case (OpEnqueue t)
  show ?thesis
  proof (cases "CurrentSize rb = N")
    case True
    with assms have "Enqueue rb t = Some (Some ''Can't enqueue, ring buffer is full.'', rb)"
      by (simp add: Enqueue_def ring_inv_def wf_rb_def)
    with assms OpEnqueue show ?thesis by simp
  next
    case False
    with assms have "wf_rb N rb" "CurrentSize rb < N"
      by (auto simp: ring_inv_def wf_rb_def)
    from Enqueue_ok[OF this, of t] obtain rb' where
      "Enqueue rb t = Some (None, rb')" "wf_rb N rb'"
      "CurrentSize rb' = CurrentSize rb + 1" "tail rb' = (head rb + CurrentSize rb) mod N"
      "IsFull rb' = (IsFull rb \<or> CurrentSize rb + 1 = N)" by blast
    moreover have "0 < N" using \<open>wf_rb N rb\<close> by (auto simp: wf_rb_def)
    ultimately show ?thesis using assms False OpEnqueue
      by (auto simp: ring_inv_def)
  qed
next
  case OpDequeue
  show ?thesis
  proof (cases "CurrentSize rb = 0")
    case True
    then have "Dequeue rb = Some (None, rb)" by (simp add: Dequeue_def)
    with assms OpDequeue show ?thesis by simp
  next
    case False
    with assms have "wf_rb N rb" "0 < CurrentSize rb"
      by (auto simp: ring_inv_def wf_rb_def)
    from Dequeue_ok[OF this] obtain x rb' where
      "Dequeue rb = Some (x, rb')" "wf_rb N rb'"
      "CurrentSize rb' = CurrentSize rb - 1" "tail rb' = tail rb" "\<not> IsFull rb'" by blast
    then show ?thesis using assms \<open>0 < CurrentSize rb\<close> OpDequeue
      by (auto simp: ring_inv_def wf_rb_def)
  qed
qed

lemma ring_run:
  "ring_inv N rb \<Longrightarrow> \<exists>rb'. rb_run rb xs = Some rb' \<and> ring_inv N rb'"
proof (induction xs arbitrary: rb)
  case Nil
  then show ?case by simp
next
  case (Cons x xs)
  from ring_step[OF Cons.prems, of x] obtain rb1 where
    "rb_fire rb x = Some rb1" "ring_inv N rb1" by blast
  with Cons.IH[of rb1] show ?case by simp
qed

lemma ring_inv_new: "1 \<le> N \<Longrightarrow> ring_inv N (newRingBuffer N)"
  by (simp add: ring_inv_def wf_rb_def newRingBuffer_def)

text \<open>
  Claim C6. A ring buffer of capacity at least 3 that is empty (its slice as long as
  its capacity, its head anywhere in range) accepts three items \<open>A\<close>, \<open>B\<close>, \<open>C\<close> and
  then gives them back in that order, each \<^verbatim>\<open>Enqueue\<close> returning \<^verbatim>\<open>nil\<close>; after the
  third \<^verbatim>\<open>Dequeue\<close> the buffer is empty again and not full.
\<close>

theorem ring_buffer_fifo:
  assumes "3 \<le> MaxSize rb" "int (length (items rb)) = MaxSize rb"
    "0 \<le> head rb" "head rb < MaxSize rb" "CurrentSize rb = 0"
  shows "\<exists>rb1 rb2 rb3 rb4 rb5 rb6.
           Enqueue rb A = Some (None, rb1) \<and> Enqueue rb1 B = Some (None, rb2) \<and>
           Enqueue rb2 C = Some (None, rb3) \<and>
           Dequeue rb3 = Some (A, rb4) \<and> Dequeue rb4 = Some (B, rb5) \<and>
           Dequeue rb5 = Some (C, rb6) \<and>
           CurrentSize rb6 = 0 \<and> \<not> IsFull rb6 \<and> Dequeue rb6 = Some (None, rb6)"
proof -
  let ?N = "MaxSize rb"
  have w0: "wf_rb ?N rb" using assms by (simp add: wf_rb_def)
  have q0: "queued rb = []" using assms by (simp add: queued_def)
  from Enqueue_ok[OF w0, of A] assms obtain rb1 where
    1: "Enqueue rb A = Some (None, rb1)" "wf_rb ?N rb1" "queued rb1 = queued rb @ [A]"
       "CurrentSize rb1 = 1" by auto
  from Enqueue_ok[OF 1(2), of B] assms 1(4) obtain rb2 where
    2: "Enqueue rb1 B = Some (None, rb2)" "wf_rb ?N rb2" "queued rb2 = queued rb1 @ [B]"
       "CurrentSize rb2 = 2" by auto
  from Enqueue_ok[OF 2(2), of C] assms 2(4) obtain rb3 where
    3: "Enqueue rb2 C = Some (None, rb3)" "wf_rb ?N rb3" "queued rb3 = queued rb2 @ [C]"
       "CurrentSize rb3 = 3" by auto
  from Dequeue_ok[OF 3(2)] 3(4) obtain x rb4 where
    4: "Dequeue rb3 = Some (x, rb4)" "wf_rb ?N rb4" "queued rb3 = x # queued rb4"
       "CurrentSize rb4 = 2" by auto
  from Dequeue_ok[OF 4(2)] 4(4) obtain y rb5 where
    5: "Dequeue rb4 = Some (y, rb5)" "wf_rb ?N rb5" "queued rb4 = y # queued rb5"
       "CurrentSize rb5 = 1" by auto
  from Dequeue_ok[OF 5(2)] 5(4) obtain z rb6 where
    6: "Dequeue rb5 = Some (z, rb6)" "wf_rb ?N rb6" "queued rb5 = z # queued rb6"
       "CurrentSize rb6 = 0" "\<not> IsFull rb6" by auto
  have "x = A" "y = B" "z = C"
    using q0 1(3) 2(3) 3(3) 4(3) 5(3) 6(3) by simp_all
  moreover have "Dequeue rb6 = Some (None, rb6)" using 6(4) by (simp add: Dequeue_def)
  ultimately show ?thesis using 1 2 3 4 5 6 by blast
qed

theorem ring_buffer_fifo_witness:
  "\<exists>rb1 rb2 rb3 rb4 rb5 rb6.
     Enqueue ((newRingBuffer 4)\<lparr>head := 2\<rparr>) (Some 7) = Some (None, rb1) \<and>
     Enqueue rb1 (Some 8) = Some (None, rb2) \<and>
     Enqueue rb2 (Some 9) = Some (None, rb3) \<and>
     Dequeue rb3 = Some (Some 7, rb4) \<and> Dequeue rb4 = Some (Some 8, rb5) \<and>
     Dequeue rb5 = Some (Some 9, rb6) \<and>
     CurrentSize rb6 = 0 \<and> \<not> IsFull rb6 \<and> Dequeue rb6 = Some (None, rb6)"
  using ring_buffer_fifo[of "(newRingBuffer 4)\<lparr>head := 2\<rparr>" "Some 7" "Some 8" "Some 9"]
  by (simp add: newRingBuffer_def)

text \<open>
  Claim C7. From the empty buffer of capacity \<open>N\<close> (at least 1, as \<^verbatim>\<open>Init\<close> makes
  it), no sequence of \<^verbatim>\<open>Enqueue\<close> and \<^verbatim>\<open>Dequeue\<close> panics, and after it the occupancy
  is in \<open>[0, N]\<close>, the full flag is set exactly when the occupancy is \<open>N\<close>, and head
  and tail are in \<open>[0, N)\<close>.
\<close>

theorem ring_buffer_invariant:
  assumes "1 \<le> N"
  shows "\<exists>rb. rb_run (newRingBuffer N) xs = Some rb \<and>
           MaxSize rb = N \<and> 0 \<le> CurrentSize rb \<and> CurrentSize rb \<le> N \<and>
           IsFull rb = (CurrentSize rb = N) \<and>
           0 \<le> head rb \<and> head rb < N \<and> 0 \<le> tail rb \<and> tail rb < N"
proof -
  from ring_run[OF ring_inv_new[OF assms], of xs] obtain rb where
    "rb_run (newRingBuffer N) xs = Some rb" "ring_inv N rb" by blast
  then show ?thesis by (auto simp: ring_inv_def wf_rb_def)
qed

theorem ring_buffer_invariant_witness:
  "\<exists>rb. rb_run (newRingBuffer 2) [OpEnqueue (Some 0), OpEnqueue (Some 1), OpEnqueue (Some 2), OpDequeue] = Some rb \<and>
        MaxSize rb = 2 \<and> CurrentSize rb = 1 \<and> \<not> IsFull rb \<and> head rb = 1 \<and> tail rb = 1 \<and>
        0 \<le> CurrentSize rb \<and> CurrentSize rb \<le> 2 \<and>
           IsFull rb = (CurrentSize rb = 2) \<and>
           0 \<le> head rb \<and> head rb < 2 \<and> 0 \<le> tail rb \<and> tail rb < 2"
  using ring_buffer_invariant[of 2 "[OpEnqueue (Some 0), OpEnqueue (Some 1), OpEnqueue (Some 2), OpDequeue]"]
  by (simp add: newRingBuffer_def Enqueue_def Dequeue_def go_rem_def Let_def)

section \<open>Properties of tasks and of construction\<close>

text \<open>
  Claim C8. \<^verbatim>\<open>CallAction\<close> with the action or the parameters unset returns the
  error of the guard and leaves the world as it was: nothing is invoked. Otherwise
  its result and its effect are those of the action applied to the parameters, so
  it reports the guard's error only if the action itself returned it.
\<close>

theorem CallAction_result:
  "CallAction t w =
     (if action t = None \<or> params t = None
      then (Some ''Task action and/or params are nil, cannot make call.'', w)
      else the (action t) (the (params t)) w)"
  by (auto simp: CallAction_def split: option.splits)

text \<open>
  Claim C9. \<^verbatim>\<open>Init\<close> gives a buffer of capacity 1 for every size below 1 and of the
  given size otherwise; the queue it returns is stopped, its buffer empty with all
  slots \<^verbatim>\<open>nil\<close>, both indexes and the pool empty, both counters zero. The
  concurrency limit and the name are stored as given.
\<close>

theorem Init_result:
  "MaxSize (items' (Init sz name m)) = (if sz < 1 then 1 else sz) \<and>
   items (items' (Init sz name m)) = replicate (nat (if sz < 1 then 1 else sz)) None \<and>
   CurrentSize (items' (Init sz name m)) = 0 \<and>
   \<not> IsFull (items' (Init sz name m)) \<and>
   head (items' (Init sz name m)) = 0 \<and>
   tail (items' (Init sz name m)) = 0 \<and>
   \<not> isRunning (Init sz name m) \<and>
   \<not> IsRunning (Init sz name m) \<and>
   tasksById (Init sz name m) = Map.empty \<and>
   waitingTasksByExternalId (Init sz name m) = Map.empty \<and>
   readyTaskPool (Init sz name m) = [] \<and>
   countProcessing (Init sz name m) = 0 \<and>
   taskCount (Init sz name m) = 0 \<and>
   maxProcessing (Init sz name m) = m \<and>
   Name (Init sz name m) = name"
  by (simp add: Init_def newRingBuffer_def IsRunning_def Let_def)

section \<open>The invariant holds in every reachable state\<close>

lemmas setters =
  SetStateReady_def SetStateWaiting_def SetStateProcessing_def SetAction_def
  SetParams_def SetExternalId_def SetId_def Clean_def


lemma processTask_inv:
  assumes inv: "sys_inv N M s"
  shows "\<exists>s'. processTask s = Some s' \<and> sys_inv N M s' \<and>
           isRunning (queue s') = isRunning (queue s) \<and> world s' = world s \<and>
           Name (queue s') = Name (queue s) \<and>
           (s' = s \<or>
            (\<exists>a. queued (items' (queue s)) = Some a # queued (items' (queue s')) \<and>
                 goroutines s' = goroutines s @ [Some a] \<and>
                 heap s' = (heap s)[a := SetStateProcessing (heap s ! a)] \<and>
                 \<not> IsFull (items' (queue s')) \<and>
                 waitingTasksByExternalId (queue s') (externalId (heap s ! a)) = None \<and>
                 readyTaskPool (queue s') = readyTaskPool (queue s) \<and>
                 countProcessing (queue s) < M))"
proof -
  let ?q = "queue s" and ?rb = "items' (queue s)"
  show ?thesis
  proof (cases "maxProcessing ?q \<le> countProcessing ?q")
    case True
    then have "processTask s = Some s" by (simp add: processTask_def)
    with inv show ?thesis by simp
  next
    case under: False
    show ?thesis
    proof (cases "CurrentSize ?rb = 0")
      case True
      then have "Dequeue ?rb = Some (None, ?rb)" by (simp add: Dequeue_def)
      with under have "processTask s = Some s" by (simp add: processTask_def)
      with inv show ?thesis by simp
    next
      case False
      from inv have ri: "ring_inv N ?rb" by (simp add: sys_inv_def)
      with False have wf: "wf_rb N ?rb" and pos: "0 < CurrentSize ?rb"
        by (auto simp: ring_inv_def wf_rb_def)
      from Dequeue_ok[OF wf pos] obtain x rb' where
        D: "Dequeue ?rb = Some (x, rb')" and wf': "wf_rb N rb'"
        and qd: "queued ?rb = x # queued rb'"
        and sz: "CurrentSize rb' = CurrentSize ?rb - 1"
        and tl: "tail rb' = tail ?rb" and nf: "\<not> IsFull rb'" by blast
      have ri': "ring_inv N rb'"
        using ri wf' sz tl nf pos by (auto simp: ring_inv_def wf_rb_def)
      from inv have cs: "set (cells s) = Some ` {..<length (heap s)}"
        and dist: "distinct (cells s)" by (simp_all add: sys_inv_def)
      have "x \<in> set (cells s)" using qd by (simp add: cells_def)
      with cs obtain a where x: "x = Some a" and a: "a < length (heap s)" by auto
      let ?t = "heap s ! a"
      define s' where "s' = s\<lparr>heap := (heap s)[a := SetStateProcessing ?t],
          queue := ?q\<lparr>items' := rb',
             waitingTasksByExternalId := (waitingTasksByExternalId ?q)(externalId ?t := None),
             countProcessing := countProcessing ?q + 1\<rparr>,
          goroutines := goroutines s @ [Some a]\<rparr>"
      have P: "processTask s = Some s'"
        using under D x by (simp add: processTask_def s'_def Let_def)
      have f: "heap s' = (heap s)[a := SetStateProcessing ?t]"
        "items' (queue s') = rb'" "goroutines s' = goroutines s @ [Some a]"
        "readyTaskPool (queue s') = readyTaskPool ?q"
        "waitingTasksByExternalId (queue s') = (waitingTasksByExternalId ?q)(externalId ?t := None)"
        "countProcessing (queue s') = countProcessing ?q + 1"
        "maxProcessing (queue s') = maxProcessing ?q" "taskCount (queue s') = taskCount ?q"
        "tasksById (queue s') = tasksById ?q" "isRunning (queue s') = isRunning ?q"
        "world s' = world s" "Name (queue s') = Name ?q"
        by (simp_all add: s'_def)
      have cells': "set (cells s') = set (cells s)" "distinct (cells s')"
        using dist qd x by (auto simp: cells_def f)
      have anq: "Some a \<notin> set (queued rb')" "Some a \<notin> set (goroutines s)"
        "Some a \<notin> set (readyTaskPool ?q)"
        using dist qd x by (auto simp: cells_def)
      have other: "heap s' ! b = heap s ! b" if "b \<noteq> a" for b
        using that by (simp add: f)
      have self: "heap s' ! a = SetStateProcessing ?t" using a by (simp add: f)
      from inv have M: "maxProcessing ?q = M" and cnt: "countProcessing ?q = int (length (goroutines s))"
        by (simp_all add: sys_inv_def)
      from inv have widx: "\<And>ident p. waitingTasksByExternalId ?q ident = Some p \<longleftrightarrow>
        (\<exists>b. p = Some b \<and> Some b \<in> set (queued ?rb) \<and> externalId (heap s ! b) = ident)"
        by (simp add: sys_inv_def)
      have w': "waitingTasksByExternalId (queue s') ident = Some p \<longleftrightarrow>
        (\<exists>b. p = Some b \<and> Some b \<in> set (queued (items' (queue s'))) \<and>
             externalId (heap s' ! b) = ident)" for ident p
      proof (cases "ident = externalId ?t")
        case True
        have "\<not> (\<exists>b. Some b \<in> set (queued rb') \<and> externalId (heap s' ! b) = ident)"
        proof
          assume "\<exists>b. Some b \<in> set (queued rb') \<and> externalId (heap s' ! b) = ident"
          then obtain b where b: "Some b \<in> set (queued rb')" "externalId (heap s' ! b) = ident"
            by blast
          then have ba: "b \<noteq> a" using anq by auto
          with b have "waitingTasksByExternalId ?q ident = Some (Some b)"
            using widx[of ident "Some b"] qd other by auto
          moreover have "waitingTasksByExternalId ?q ident = Some (Some a)"
            using widx[of ident "Some a"] qd x True by auto
          ultimately show False using ba by simp
        qed
        with True show ?thesis by (auto simp: f)
      next
        case False
        have "(\<exists>b. p = Some b \<and> Some b \<in> set (queued ?rb) \<and> externalId (heap s ! b) = ident)
           \<longleftrightarrow> (\<exists>b. p = Some b \<and> Some b \<in> set (queued rb') \<and> externalId (heap s' ! b) = ident)"
          using qd x False anq other by (metis (no_types, lifting) option.inject set_ConsD list.set_intros(2))
        with False widx[of ident p] show ?thesis by (simp add: f)
      qed
      from inv have stq: "\<And>b. Some b \<in> set (queued ?rb) \<Longrightarrow>
          state (heap s ! b) = waiting \<and> TrimSpace (externalId (heap s ! b)) \<noteq> []"
        and stg: "\<And>b. Some b \<in> set (goroutines s) \<Longrightarrow>
          state (heap s ! b) = processing \<and> TrimSpace (externalId (heap s ! b)) \<noteq> []"
        and stp: "\<And>b. Some b \<in> set (readyTaskPool ?q) \<Longrightarrow> state (heap s ! b) = ready"
        and ids: "\<And>b. b < length (heap s) \<Longrightarrow> id' (heap s ! b) = int b + 1 \<and>
          tasksById ?q (int b + 1) = Some (Some b)"
        by (simp_all add: sys_inv_def)
      have stq': "state (heap s' ! b) = waiting \<and> TrimSpace (externalId (heap s' ! b)) \<noteq> []"
        if "Some b \<in> set (queued rb')" for b
      proof -
        from that anq have "b \<noteq> a" by auto
        then show ?thesis using that other[of b] stq[of b] qd by simp
      qed
      have stg': "state (heap s' ! b) = processing \<and> TrimSpace (externalId (heap s' ! b)) \<noteq> []"
        if "Some b \<in> set (goroutines s @ [Some a])" for b
      proof (cases "b = a")
        case True
        then show ?thesis using self stq[of a] qd x by (simp add: setters)
      next
        case False
        then show ?thesis using that other[of b] stg[of b] by simp
      qed
      have stp': "state (heap s' ! b) = ready" if "Some b \<in> set (readyTaskPool ?q)" for b
      proof -
        from that anq have "b \<noteq> a" by auto
        then show ?thesis using that other[of b] stp[of b] by simp
      qed
      have ids': "id' (heap s' ! b) = int b + 1 \<and> tasksById ?q (int b + 1) = Some (Some b)"
        if "b < length (heap s)" for b
        using that ids[of b] other[of b] self by (cases "b = a") (auto simp: setters)
      have bound: "countProcessing ?q + 1 \<le> max 0 M" using under M by simp
      have I: "sys_inv N M s'"
        unfolding sys_inv_def
        using ri' M cnt bound cells' cs w' stq' stg' stp' ids' inv
        by (simp add: f sys_inv_def)
      have wn: "waitingTasksByExternalId (queue s') (externalId ?t) = None" by (simp add: f)
      show ?thesis
        using P I qd x f nf wn under M by auto
    qed
  qed
qed

lemma isValidId_None:
  "TrimSpace ident \<noteq> [] \<Longrightarrow> waitingTasksByExternalId q ident = None \<Longrightarrow>
   isValidId q ident = (True, None)"
  by (simp add: isValidId_def)

lemma popTask_last: "pool \<noteq> [] \<Longrightarrow> popTask pool = (last pool, butlast pool)"
  by (simp add: popTask_def Let_def last_conv_nth butlast_conv_take)

lemma Add_admit:
  assumes inv: "sys_inv N M s" and rn: "isRunning (queue s)"
    and nf: "\<not> IsFull (items' (queue s))"
    and v: "TrimSpace ident \<noteq> []"
    and nd: "waitingTasksByExternalId (queue s) ident = None"
  shows "\<exists>a s1 s'. Add s act prm ident = Some (None, s') \<and> processTask s1 = Some s' \<and>
           sys_inv N M s1 \<and>
           queued (items' (queue s1)) = queued (items' (queue s)) @ [Some a] \<and>
           goroutines s1 = goroutines s \<and>
           Some a \<notin> set (queued (items' (queue s))) \<and>
           (\<forall>b. b \<noteq> a \<longrightarrow> b < length (heap s) \<longrightarrow> heap s1 ! b = heap s ! b) \<and>
           length (heap s) \<le> length (heap s1) \<and>
           externalId (heap s1 ! a) = ident \<and> action (heap s1 ! a) = act \<and>
           params (heap s1 ! a) = prm \<and>
           isRunning (queue s1) \<and> world s1 = world s \<and> Name (queue s1) = Name (queue s) \<and>
           CurrentSize (items' (queue s1)) = CurrentSize (items' (queue s)) + 1 \<and>
           (if readyTaskPool (queue s) = []
            then a = length (heap s) \<and> taskCount (queue s1) = taskCount (queue s) + 1 \<and>
                 readyTaskPool (queue s1) = []
            else Some a = last (readyTaskPool (queue s)) \<and>
                 taskCount (queue s1) = taskCount (queue s) \<and>
                 readyTaskPool (queue s1) = butlast (readyTaskPool (queue s)))"
proof -
  let ?q = "queue s" and ?rb = "items' (queue s)"
  let ?t = "\<lambda>s0 a. SetExternalId ident (SetParams prm (SetAction act
                      (SetStateWaiting (heap s0 ! a))))"
  let ?s1 = "\<lambda>s0 a rb1. s0\<lparr>heap := (heap s0)[a := ?t s0 a],
       queue := (queue s0)\<lparr>waitingTasksByExternalId :=
                          (waitingTasksByExternalId (queue s0))(ident \<mapsto> Some a),
                     items' := rb1\<rparr>\<rparr>"
  let ?new = "\<lambda>s0 a rb1. Enqueue (items' (queue s)) (Some a) = Some (None, rb1) \<and>
     Add s act prm ident =
       (case processTask (?s1 s0 a rb1) of None \<Rightarrow> None | Some s2 \<Rightarrow> Some (None, s2))"
  from inv have ri: "ring_inv N ?rb"
    and M: "maxProcessing ?q = M"
    and cnt: "countProcessing ?q = int (length (goroutines s))" "countProcessing ?q \<le> max 0 M"
    and tc: "taskCount ?q = int (length (heap s))"
    and bnd: "int (length (heap s)) \<le> N + max 0 M"
    and dist: "distinct (cells s)"
    and cs: "set (cells s) = Some ` {..<length (heap s)}"
    and widx: "\<And>ident p. waitingTasksByExternalId ?q ident = Some p \<longleftrightarrow>
        (\<exists>b. p = Some b \<and> Some b \<in> set (queued ?rb) \<and> externalId (heap s ! b) = ident)"
    and stq: "\<And>b. Some b \<in> set (queued ?rb) \<Longrightarrow>
          state (heap s ! b) = waiting \<and> TrimSpace (externalId (heap s ! b)) \<noteq> []"
    and stg: "\<And>b. Some b \<in> set (goroutines s) \<Longrightarrow>
          state (heap s ! b) = processing \<and> TrimSpace (externalId (heap s ! b)) \<noteq> []"
    and stp: "\<And>b. Some b \<in> set (readyTaskPool ?q) \<Longrightarrow> state (heap s ! b) = ready"
    and ids: "\<And>b. b < length (heap s) \<Longrightarrow> id' (heap s ! b) = int b + 1 \<and>
          tasksById ?q (int b + 1) = Some (Some b)"
    by (simp_all add: sys_inv_def)
  from ri nf have wf: "wf_rb N ?rb" and room: "CurrentSize ?rb < N"
    by (auto simp: ring_inv_def wf_rb_def)
  have qlen: "int (length (queued ?rb)) = CurrentSize ?rb"
    using wf by (simp add: queued_def wf_rb_def)
  have valid: "snd (isValidId ?q ident) = None"
    using v nd by (simp add: isValidId_None)
  \<comment> \<open>the task to use, and the system once it is taken\<close>
  have enq: "\<exists>rb1. Enqueue ?rb (Some a) = Some (None, rb1)" for a
    using Enqueue_ok[OF wf room, of "Some a"] by blast
  have "\<exists>a s0 rb1. ?new s0 a rb1 \<and>
          a < length (heap s0) \<and> length (heap s) \<le> length (heap s0) \<and>
          (\<forall>b < length (heap s). heap s0 ! b = heap s ! b) \<and>
          id' (heap s0 ! a) = int a + 1 \<and>
          goroutines s0 = goroutines s \<and> world s0 = world s \<and>
          queue s0 = ?q\<lparr>readyTaskPool := readyTaskPool (queue s0),
                         taskCount := taskCount (queue s0),
                         tasksById := tasksById (queue s0)\<rparr> \<and>
          taskCount (queue s0) = int (length (heap s0)) \<and>
          int (length (heap s0)) \<le> N + max 0 M \<and>
          (\<forall>b < length (heap s0). tasksById (queue s0) (int b + 1) = Some (Some b)) \<and>
          distinct (queued ?rb @ [Some a] @ goroutines s @ readyTaskPool (queue s0)) \<and>
          set (queued ?rb @ [Some a] @ goroutines s @ readyTaskPool (queue s0)) =
            Some ` {..<length (heap s0)} \<and>
          set (readyTaskPool (queue s0)) \<subseteq> set (readyTaskPool ?q) \<and>
          (if readyTaskPool ?q = []
            then a = length (heap s) \<and> taskCount (queue s0) = taskCount ?q + 1 \<and>
                 readyTaskPool (queue s0) = []
            else Some a = last (readyTaskPool ?q) \<and>
                 taskCount (queue s0) = taskCount ?q \<and>
                 readyTaskPool (queue s0) = butlast (readyTaskPool ?q))"
  proof (cases "readyTaskPool ?q = []")
    case True
    let ?a = "length (heap s)"
    define s0 where "s0 = s\<lparr>heap := heap s @ [SetId (taskCount ?q + 1) zeroTask],
       queue := ?q\<lparr>taskCount := taskCount ?q + 1,
                   tasksById := (tasksById ?q)(taskCount ?q + 1 \<mapsto> Some ?a)\<rparr>\<rparr>"
    from enq[of ?a] obtain rb1 where E: "Enqueue ?rb (Some ?a) = Some (None, rb1)" by blast
    have A: "?new s0 ?a rb1"
      using rn nf valid True E by (simp add: Add_def Let_def s0_def SetId_def zeroTask_def)
    have f: "heap s0 = heap s @ [SetId (taskCount ?q + 1) zeroTask]"
      "goroutines s0 = goroutines s" "world s0 = world s"
      "readyTaskPool (queue s0) = []" "taskCount (queue s0) = taskCount ?q + 1"
      "tasksById (queue s0) = (tasksById ?q)(taskCount ?q + 1 \<mapsto> Some ?a)"
      using True by (simp_all add: s0_def)
    have q0: "queue s0 = ?q\<lparr>readyTaskPool := readyTaskPool (queue s0),
                         taskCount := taskCount (queue s0),
                         tasksById := tasksById (queue s0)\<rparr>"
      using True by (simp add: s0_def)
    have len: "int (length (heap s)) = CurrentSize ?rb + countProcessing ?q"
    proof -
      have "length (cells s) = card (set (cells s))" using dist by (simp add: distinct_card)
      also have "\<dots> = length (heap s)" unfolding cs by (simp add: card_image)
      finally show ?thesis using True qlen cnt by (simp add: cells_def)
    qed
    have b0: "int (length (heap s0)) \<le> N + max 0 M"
      using len room cnt by (simp add: f)
    have tb: "\<forall>b < length (heap s0). tasksById (queue s0) (int b + 1) = Some (Some b)"
      using ids tc by (auto simp: f less_Suc_eq)
    have d0: "distinct (queued ?rb @ [Some ?a] @ goroutines s @ readyTaskPool (queue s0))"
      "set (queued ?rb @ [Some ?a] @ goroutines s @ readyTaskPool (queue s0)) =
            Some ` {..<length (heap s0)}"
      using dist cs True by (auto simp: cells_def f lessThan_Suc)
    show ?thesis
      using A q0 b0 tb d0 True tc
      by (intro exI[of _ ?a] exI[of _ s0] exI[of _ rb1]) (simp add: f nth_append SetId_def)
  next
    case False
    then have "last (readyTaskPool ?q) \<in> set (cells s)" by (simp add: cells_def)
    with cs obtain a where la: "last (readyTaskPool ?q) = Some a" and a: "a < length (heap s)"
      by auto
    define s0 where "s0 = s\<lparr>queue := ?q\<lparr>readyTaskPool := butlast (readyTaskPool ?q)\<rparr>\<rparr>"
    from enq[of a] obtain rb1 where E: "Enqueue ?rb (Some a) = Some (None, rb1)" by blast
    have A: "?new s0 a rb1"
      using rn nf valid False la E by (simp add: Add_def Let_def s0_def popTask_last)
    have f: "heap s0 = heap s"
      "goroutines s0 = goroutines s" "world s0 = world s"
      "readyTaskPool (queue s0) = butlast (readyTaskPool ?q)" "taskCount (queue s0) = taskCount ?q"
      "tasksById (queue s0) = tasksById ?q"
      by (simp_all add: s0_def)
    have q0: "queue s0 = ?q\<lparr>readyTaskPool := readyTaskPool (queue s0),
                         taskCount := taskCount (queue s0),
                         tasksById := tasksById (queue s0)\<rparr>"
      by (simp add: s0_def)
    have pool: "readyTaskPool ?q = butlast (readyTaskPool ?q) @ [Some a]"
      using False la by (metis append_butlast_last_id)
    have d0: "distinct (queued ?rb @ [Some a] @ goroutines s @ readyTaskPool (queue s0))"
      "set (queued ?rb @ [Some a] @ goroutines s @ readyTaskPool (queue s0)) =
            Some ` {..<length (heap s0)}"
      using dist cs unfolding cells_def f by (subst (asm) pool, auto)+
    have sub: "set (readyTaskPool (queue s0)) \<subseteq> set (readyTaskPool ?q)"
      by (auto simp: f dest: in_set_butlastD)
    show ?thesis
      using A q0 a d0 False tc bnd ids la sub
      by (intro exI[of _ a] exI[of _ s0] exI[of _ rb1]) (simp add: f)
  qed
  then obtain a s0 rb1 where
    A: "?new s0 a rb1"
    and a: "a < length (heap s0)" and le: "length (heap s) \<le> length (heap s0)"
    and same: "\<And>b. b < length (heap s) \<Longrightarrow> heap s0 ! b = heap s ! b"
    and ida: "id' (heap s0 ! a) = int a + 1"
    and g0: "goroutines s0 = goroutines s" and w0: "world s0 = world s"
    and q0: "queue s0 = ?q\<lparr>readyTaskPool := readyTaskPool (queue s0),
                         taskCount := taskCount (queue s0),
                         tasksById := tasksById (queue s0)\<rparr>"
    and tc0: "taskCount (queue s0) = int (length (heap s0))"
    and b0: "int (length (heap s0)) \<le> N + max 0 M"
    and tb0: "\<And>b. b < length (heap s0) \<Longrightarrow> tasksById (queue s0) (int b + 1) = Some (Some b)"
    and d0: "distinct (queued ?rb @ [Some a] @ goroutines s @ readyTaskPool (queue s0))"
    and c0: "set (queued ?rb @ [Some a] @ goroutines s @ readyTaskPool (queue s0)) =
            Some ` {..<length (heap s0)}"
    and sub: "set (readyTaskPool (queue s0)) \<subseteq> set (readyTaskPool ?q)"
    and how: "if readyTaskPool ?q = []
            then a = length (heap s) \<and> taskCount (queue s0) = taskCount ?q + 1 \<and>
                 readyTaskPool (queue s0) = []
            else Some a = last (readyTaskPool ?q) \<and>
                 taskCount (queue s0) = taskCount ?q \<and>
                 readyTaskPool (queue s0) = butlast (readyTaskPool ?q)"
    by blast
  have qf: "items' (queue s0) = ?rb" "isRunning (queue s0) = isRunning ?q"
    "waitingTasksByExternalId (queue s0) = waitingTasksByExternalId ?q"
    "countProcessing (queue s0) = countProcessing ?q" "maxProcessing (queue s0) = maxProcessing ?q"
    "Name (queue s0) = Name ?q"
    by (subst q0, simp)+
  from A have E: "Enqueue ?rb (Some a) = Some (None, rb1)" by simp
  with Enqueue_ok[OF wf room, of "Some a"] have wf1: "wf_rb N rb1"
    and q1: "queued rb1 = queued ?rb @ [Some a]"
    and sz1: "CurrentSize rb1 = CurrentSize ?rb + 1"
    and tl1: "tail rb1 = (head ?rb + CurrentSize ?rb) mod N"
    and fl1: "IsFull rb1 = (IsFull ?rb \<or> CurrentSize ?rb + 1 = N)" by auto
  have ri1: "ring_inv N rb1"
    using wf1 sz1 tl1 fl1 nf room wf by (auto simp: ring_inv_def wf_rb_def)
  let ?t = "SetExternalId ident (SetParams prm (SetAction act (SetStateWaiting (heap s0 ! a))))"
  define s1 where "s1 = ?s1 s0 a rb1"
  have A1: "Add s act prm ident = (case processTask s1 of None \<Rightarrow> None | Some s2 \<Rightarrow> Some (None, s2))"
    using A by (simp add: s1_def)
  have f: "heap s1 = (heap s0)[a := ?t]" "items' (queue s1) = rb1"
    "goroutines s1 = goroutines s" "world s1 = world s"
    "readyTaskPool (queue s1) = readyTaskPool (queue s0)"
    "waitingTasksByExternalId (queue s1) = (waitingTasksByExternalId ?q)(ident \<mapsto> Some a)"
    "countProcessing (queue s1) = countProcessing ?q"
    "maxProcessing (queue s1) = maxProcessing ?q" "taskCount (queue s1) = taskCount (queue s0)"
    "tasksById (queue s1) = tasksById (queue s0)" "isRunning (queue s1) = isRunning ?q"
    "Name (queue s1) = Name ?q"
    by (simp_all add: s1_def qf g0 w0)
  have anq: "Some a \<notin> set (queued ?rb)" "Some a \<notin> set (goroutines s)"
    "Some a \<notin> set (readyTaskPool (queue s0))"
    using d0 by auto
  have inq: "b < length (heap s)" if "Some b \<in> set (queued ?rb) \<union> set (goroutines s) \<union> set (readyTaskPool ?q)" for b
    using that cs by (auto simp: cells_def)
  have other: "heap s1 ! b = heap s ! b" if "b \<noteq> a" "b < length (heap s)" for b
    using that same by (simp add: f)
  have self: "heap s1 ! a = ?t" using a by (simp add: f)
  have cells1: "distinct (cells s1)" "set (cells s1) = Some ` {..<length (heap s1)}"
    using d0 c0 by (auto simp: cells_def f q1)
  have w1: "waitingTasksByExternalId (queue s1) i = Some p \<longleftrightarrow>
        (\<exists>b. p = Some b \<and> Some b \<in> set (queued (items' (queue s1))) \<and>
             externalId (heap s1 ! b) = i)" for i p
  proof (cases "i = ident")
    case True
    have "\<not> (\<exists>b. Some b \<in> set (queued ?rb) \<and> externalId (heap s ! b) = ident)"
      using widx[of ident] nd by auto
    moreover have "heap s1 ! b = heap s ! b" if "Some b \<in> set (queued ?rb)" for b
      using that anq inq[of b] other[of b] by auto
    ultimately show ?thesis using True self
      by (auto simp: f q1 setters)
  next
    case False
    have "heap s1 ! b = heap s ! b" if "Some b \<in> set (queued ?rb)" for b
      using that anq inq[of b] other[of b] by auto
    then have "(\<exists>b. p = Some b \<and> Some b \<in> set (queued ?rb) \<and> externalId (heap s ! b) = i)
       \<longleftrightarrow> (\<exists>b. p = Some b \<and> Some b \<in> set (queued rb1) \<and> externalId (heap s1 ! b) = i)"
      using False self by (auto simp: q1 setters)
    with False widx[of i p] show ?thesis by (simp add: f)
  qed
  have stq1: "state (heap s1 ! b) = waiting \<and> TrimSpace (externalId (heap s1 ! b)) \<noteq> []"
    if "Some b \<in> set (queued rb1)" for b
  proof (cases "b = a")
    case True
    then show ?thesis using self v by (simp add: setters)
  next
    case False
    with that have "Some b \<in> set (queued ?rb)" by (simp add: q1)
    then show ?thesis using False other[of b] inq[of b] stq[of b] by simp
  qed
  have stg1: "state (heap s1 ! b) = processing \<and> TrimSpace (externalId (heap s1 ! b)) \<noteq> []"
    if "Some b \<in> set (goroutines s)" for b
  proof -
    from that anq have "b \<noteq> a" by auto
    then show ?thesis using that other[of b] inq[of b] stg[of b] by simp
  qed
  have stp1: "state (heap s1 ! b) = ready" if "Some b \<in> set (readyTaskPool (queue s0))" for b
  proof -
    from that anq have "b \<noteq> a" by auto
    moreover from that sub have "Some b \<in> set (readyTaskPool ?q)" by auto
    ultimately show ?thesis using other[of b] inq[of b] stp[of b] by simp
  qed
  have ids1: "id' (heap s1 ! b) = int b + 1 \<and> tasksById (queue s0) (int b + 1) = Some (Some b)"
    if "b < length (heap s0)" for b
  proof (cases "b = a")
    case True
    then show ?thesis using self ida tb0[of b] that by (simp add: setters)
  next
    case False
    have "b < length (heap s)"
    proof (rule ccontr)
      assume "\<not> b < length (heap s)"
      with how that False tc tc0 show False
        by (cases "readyTaskPool ?q = []") (simp_all add: f)
    qed
    then show ?thesis using False other[of b] ids[of b] tb0[of b] that by simp
  qed
  have I1: "sys_inv N M s1"
    unfolding sys_inv_def
    using ri1 M cnt tc0 b0 cells1 w1 stq1 stg1 stp1 ids1
    by (simp add: f)
  from processTask_inv[OF I1] obtain s' where P: "processTask s1 = Some s'" by blast
  have AA: "Add s act prm ident = Some (None, s')" using A1 P by simp
  have fin: "externalId (heap s1 ! a) = ident" "action (heap s1 ! a) = act"
    "params (heap s1 ! a) = prm"
    using self by (simp_all add: setters)
  show ?thesis
    apply (rule exI[of _ a], rule exI[of _ s1], rule exI[of _ s'])
    using AA P I1 q1 anq other le fin rn sz1 how by (simp add: f)
qed

lemma Add_reject:
  "Add s act prm ident =
     (if \<not> isRunning (queue s)
      then Some (Some (''FixedSizeQueue '' @ Name (queue s) @
                  '' is not running. Try starting and then adding.''), s)
      else if IsFull (items' (queue s))
      then Some (Some (''FixedSizeQueue '' @ Name (queue s) @
                  '' has no capacity at this time. Try later.''), s)
      else if TrimSpace ident = []
      then Some (Some ''Id for task is not valid, only uses space characters.'', s)
      else Some (Some ''Id for task is already waiting to be processed.'', s))"
  if "\<not> isRunning (queue s) \<or> IsFull (items' (queue s)) \<or> TrimSpace ident = [] \<or>
      waitingTasksByExternalId (queue s) ident \<noteq> None"
  using that by (auto simp: Add_def isValidId_def Let_def)

lemma Done_step:
  assumes inv: "sys_inv N M s" and k: "k < length (goroutines s)"
  shows "\<exists>a s1 s'. goroutines s ! k = Some a \<and> fire s (EvDone k) = Some s' \<and>
           processTask s1 = Some s' \<and> sys_inv N M s1 \<and>
           items' (queue s1) = items' (queue s) \<and>
           goroutines s1 = take k (goroutines s) @ drop (Suc k) (goroutines s) \<and>
           readyTaskPool (queue s1) = readyTaskPool (queue s) @ [Some a] \<and>
           heap s1 = (heap s)[a := Clean (heap s ! a)] \<and>
           countProcessing (queue s1) = countProcessing (queue s) - 1 \<and>
           isRunning (queue s1) = isRunning (queue s) \<and>
           taskCount (queue s1) = taskCount (queue s) \<and>
           Name (queue s1) = Name (queue s) \<and>
           waitingTasksByExternalId (queue s1) = waitingTasksByExternalId (queue s) \<and>
           world s1 = snd (CallAction (heap s ! a) (world s))"
proof -
  let ?q = "queue s" and ?rb = "items' (queue s)" and ?g = "goroutines s"
  let ?g' = "take k ?g @ drop (Suc k) ?g"
  from inv have ri: "ring_inv N ?rb"
    and M: "maxProcessing ?q = M"
    and cnt: "countProcessing ?q = int (length (goroutines s))" "countProcessing ?q \<le> max 0 M"
    and tc: "taskCount ?q = int (length (heap s))"
    and bnd: "int (length (heap s)) \<le> N + max 0 M"
    and dist: "distinct (cells s)"
    and cs: "set (cells s) = Some ` {..<length (heap s)}"
    and widx: "\<And>ident p. waitingTasksByExternalId ?q ident = Some p \<longleftrightarrow>
        (\<exists>b. p = Some b \<and> Some b \<in> set (queued ?rb) \<and> externalId (heap s ! b) = ident)"
    and stq: "\<And>b. Some b \<in> set (queued ?rb) \<Longrightarrow>
          state (heap s ! b) = waiting \<and> TrimSpace (externalId (heap s ! b)) \<noteq> []"
    and stg: "\<And>b. Some b \<in> set (goroutines s) \<Longrightarrow>
          state (heap s ! b) = processing \<and> TrimSpace (externalId (heap s ! b)) \<noteq> []"
    and stp: "\<And>b. Some b \<in> set (readyTaskPool ?q) \<Longrightarrow> state (heap s ! b) = ready"
    and ids: "\<And>b. b < length (heap s) \<Longrightarrow> id' (heap s ! b) = int b + 1 \<and>
          tasksById ?q (int b + 1) = Some (Some b)"
    by (simp_all add: sys_inv_def)
  have "?g ! k \<in> set (cells s)" using k by (simp add: cells_def)
  with cs obtain a where ga: "?g ! k = Some a" and a: "a < length (heap s)" by auto
  define A B where "A = take k ?g" and "B = drop (Suc k) ?g"
  have split: "?g = A @ Some a # B"
    unfolding A_def B_def using id_take_nth_drop[OF k] ga by simp
  have g': "?g' = A @ B" by (simp add: A_def B_def)
  obtain e w where C: "CallAction (heap s ! a) (world s) = (e, w)" by (cases "CallAction (heap s ! a) (world s)")
  define s1 where "s1 = s\<lparr>goroutines := ?g', world := w,
       heap := (heap s)[a := Clean (heap s ! a)],
       queue := ?q\<lparr>readyTaskPool := readyTaskPool ?q @ [Some a],
                   countProcessing := countProcessing ?q - 1\<rparr>\<rparr>"
  have F: "fire s (EvDone k) = processTask s1"
    using k ga C by (simp add: actionWrapper_def s1_def Let_def)
  have f: "heap s1 = (heap s)[a := Clean (heap s ! a)]" "items' (queue s1) = ?rb"
    "goroutines s1 = A @ B" "world s1 = w"
    "readyTaskPool (queue s1) = readyTaskPool ?q @ [Some a]"
    "waitingTasksByExternalId (queue s1) = waitingTasksByExternalId ?q"
    "countProcessing (queue s1) = countProcessing ?q - 1"
    "maxProcessing (queue s1) = maxProcessing ?q" "taskCount (queue s1) = taskCount ?q"
    "tasksById (queue s1) = tasksById ?q" "isRunning (queue s1) = isRunning ?q"
    "Name (queue s1) = Name ?q"
    by (simp_all add: s1_def g')
  have d1: "distinct (cells s1)" "set (cells s1) = set (cells s)"
    using dist by (auto simp: cells_def f split)
  have anq: "Some a \<notin> set (queued ?rb)" "Some a \<notin> set (A @ B)" "Some a \<notin> set (readyTaskPool ?q)"
    using dist by (auto simp: cells_def split)
  have sub: "set (A @ B) \<subseteq> set ?g"
    by (auto simp: split)
  have other: "heap s1 ! b = heap s ! b" if "b \<noteq> a" for b
    using that by (simp add: f)
  have self: "heap s1 ! a = Clean (heap s ! a)" using a by (simp add: f)
  have w1: "waitingTasksByExternalId ?q i = Some p \<longleftrightarrow>
        (\<exists>b. p = Some b \<and> Some b \<in> set (queued ?rb) \<and> externalId (heap s1 ! b) = i)" for i p
  proof -
    have "heap s1 ! b = heap s ! b" if "Some b \<in> set (queued ?rb)" for b
      using that anq other[of b] by auto
    then have "(\<exists>b. p = Some b \<and> Some b \<in> set (queued ?rb) \<and> externalId (heap s ! b) = i)
       \<longleftrightarrow> (\<exists>b. p = Some b \<and> Some b \<in> set (queued ?rb) \<and> externalId (heap s1 ! b) = i)"
      by auto
    with widx[of i p] show ?thesis by simp
  qed
  have stq1: "state (heap s1 ! b) = waiting \<and> TrimSpace (externalId (heap s1 ! b)) \<noteq> []"
    if "Some b \<in> set (queued ?rb)" for b
  proof -
    from that anq have "b \<noteq> a" by auto
    then show ?thesis using that other[of b] stq[of b] by simp
  qed
  have stg1: "state (heap s1 ! b) = processing \<and> TrimSpace (externalId (heap s1 ! b)) \<noteq> []"
    if "Some b \<in> set (A @ B)" for b
  proof -
    from that anq have "b \<noteq> a" by auto
    moreover from that sub have "Some b \<in> set ?g" by auto
    ultimately show ?thesis using other[of b] stg[of b] by simp
  qed
  have stp1: "state (heap s1 ! b) = ready" if "Some b \<in> set (readyTaskPool ?q @ [Some a])" for b
  proof (cases "b = a")
    case True
    then show ?thesis using self by (simp add: setters)
  next
    case False
    then show ?thesis using that other[of b] stp[of b] by simp
  qed
  have ids1: "id' (heap s1 ! b) = int b + 1 \<and> tasksById ?q (int b + 1) = Some (Some b)"
    if "b < length (heap s)" for b
    using that ids[of b] other[of b] self by (cases "b = a") (auto simp: setters)
  have cnt1: "countProcessing ?q - 1 = int (length (A @ B))" "countProcessing ?q - 1 \<le> max 0 M"
    using cnt by (simp_all add: split)
  have I1: "sys_inv N M s1"
    unfolding sys_inv_def
    using ri M cnt1 tc bnd d1 cs w1 stq1 stg1 stp1 ids1
    by (simp add: f)
  from processTask_inv[OF I1] obtain s' where P: "processTask s1 = Some s'" by blast
  show ?thesis
    apply (rule exI[of _ a], rule exI[of _ s1], rule exI[of _ s'])
    using ga F P I1 C g' by (simp add: f)
qed

lemma fire_inv:
  assumes inv: "sys_inv N M s"
  shows "\<exists>s'. fire s e = Some s' \<and> sys_inv N M s'"
proof (cases e)
  case EvStart
  with inv show ?thesis by (simp add: sys_inv_def cells_def Start_def)
next
  case EvStop
  with inv show ?thesis by (simp add: sys_inv_def cells_def Stop_def)
next
  case (EvAdd act prm ident)
  show ?thesis
  proof (cases "\<not> isRunning (queue s) \<or> IsFull (items' (queue s)) \<or> TrimSpace ident = [] \<or>
      waitingTasksByExternalId (queue s) ident \<noteq> None")
    case True
    from Add_reject[OF this, of act prm] inv EvAdd show ?thesis
      by (auto split: if_splits)
  next
    case False
    with Add_admit[OF inv, of ident act prm] obtain s1 s' where
      "Add s act prm ident = Some (None, s')" "processTask s1 = Some s'" "sys_inv N M s1"
      by auto
    with processTask_inv[of N M s1] EvAdd show ?thesis by auto
  qed
next
  case (EvDone k)
  show ?thesis
  proof (cases "k < length (goroutines s)")
    case True
    from Done_step[OF inv this] obtain s1 s' where
      "fire s (EvDone k) = Some s'" "processTask s1 = Some s'" "sys_inv N M s1" by blast
    with processTask_inv[of N M s1] EvDone show ?thesis by auto
  next
    case False
    with inv EvDone show ?thesis by simp
  qed
qed

lemma run_inv:
  "sys_inv N M s \<Longrightarrow> \<exists>s'. run s es = Some s' \<and> sys_inv N M s'"
proof (induction es arbitrary: s)
  case Nil
  then show ?case by simp
next
  case (Cons e es)
  from fire_inv[OF Cons.prems, of e] obtain s1 where
    "fire s e = Some s1" "sys_inv N M s1" by blast
  with Cons.IH[of s1] show ?case by simp
qed

lemma initial_inv: "sys_inv (if sz \<le> 0 then 1 else sz) m (initial sz name m w)"
  by (simp add: sys_inv_def cells_def initial_def Init_def newRingBuffer_def ring_inv_def
      wf_rb_def queued_def Let_def)

lemma reachable_inv:
  "\<exists>s. run (initial sz name m w) es = Some s \<and> sys_inv (if sz \<le> 0 then 1 else sz) m s"
  using run_inv[OF initial_inv] .

section \<open>Properties of admission and dispatch\<close>

text \<open>The definitions a run on concrete events unfolds.\<close>

lemmas eval_defs =
  initial_def Init_def newRingBuffer_def Start_def Stop_def Add_def isValidId_def
  TrimSpace_def spaceRunes_def popTask_def Enqueue_def Dequeue_def processTask_def
  actionWrapper_def CallAction_def go_rem_def Let_def zeroTask_def setters
  waiting_def processing_def ready_def

text \<open>
  Claim C5. On a running queue whose buffer has its full flag set, \<^verbatim>\<open>Add\<close> returns
  the no-capacity error and the whole system is as before: heap, buffer, both
  indexes, pool, counters, spawned goroutines and world.
\<close>

theorem Add_full_unchanged:
  "isRunning (queue s) \<Longrightarrow> IsFull (items' (queue s)) \<Longrightarrow>
   Add s act prm ident =
     Some (Some (''FixedSizeQueue '' @ Name (queue s) @
              '' has no capacity at this time. Try later.''), s)"
  by (simp add: Add_def)

theorem Add_full_unchanged_witness:
  "\<exists>s :: (unit, unit) system.
     run (initial 1 ''q'' 1 ()) [EvStart, EvAdd None None ''id-1'', EvAdd None None ''id-2''] = Some s \<and>
     isRunning (queue s) \<and> IsFull (items' (queue s)) \<and>
     Add s None None ''id-3'' =
       Some (Some ''FixedSizeQueue q has no capacity at this time. Try later.'', s)"
proof -
  let ?es = "[EvStart, EvAdd None None ''id-1'', EvAdd None None ''id-2'']"
  let ?s = "the (run (initial 1 ''q'' 1 ()) ?es) :: (unit, unit) system"
  have r: "run (initial 1 ''q'' 1 ()) ?es = Some ?s"
    by (simp add: eval_defs)
  have h: "isRunning (queue ?s)" "IsFull (items' (queue ?s))" "Name (queue ?s) = ''q''"
    by (simp_all add: eval_defs)
  from Add_full_unchanged[OF h(1,2), of None None "''id-3''"] r h show ?thesis
    by (intro exI[of _ ?s]) simp
qed

text \<open>
  Claim C1. The number of task objects allocated can exceed the capacity: on a queue
  of capacity 1 with concurrency limit 1 the first task admitted is dispatched at
  once and leaves the buffer, the pool is still empty when the second is admitted,
  and a second object is allocated. The counter then reads 2.
\<close>

theorem task_count_exceeds_capacity:
  "\<exists>s :: (unit, unit) system.
     run (initial 1 ''q'' 1 ())
       [EvStart, EvAdd (Some (\<lambda>p w. (None, w))) (Some Map.empty) ''id-1'',
        EvAdd (Some (\<lambda>p w. (None, w))) (Some Map.empty) ''id-2''] = Some s \<and>
     MaxSize (items' (queue s)) = 1 \<and> taskCount (queue s) = 2 \<and> length (heap s) = 2"
  by (simp add: eval_defs)

text \<open>
  Claim C2, as amended. An id that is empty after trimming never passes \<^verbatim>\<open>isValidId\<close>,
  and \<^verbatim>\<open>Add\<close> with it fails and leaves the system unchanged; the error is the one of
  the first guard that applies: not running, then no capacity, then invalid id.
\<close>

theorem blank_id_rejected:
  assumes "TrimSpace ident = []"
  shows "isValidId q ident =
           (False, Some ''Id for task is not valid, only uses space characters.'') \<and>
         Add s act prm ident =
           Some (Some (if \<not> isRunning (queue s)
                       then ''FixedSizeQueue '' @ Name (queue s) @
                              '' is not running. Try starting and then adding.''
                       else if IsFull (items' (queue s))
                       then ''FixedSizeQueue '' @ Name (queue s) @
                              '' has no capacity at this time. Try later.''
                       else ''Id for task is not valid, only uses space characters.''), s)"
  using assms by (simp add: isValidId_def Add_def)

theorem blank_id_rejected_witness:
  "TrimSpace [CHR 0x20, CHR 0x09, CHR 0xC2, CHR 0xA0] = [] \<and>
   Add (initial 3 ''q'' 1 () \<lparr>queue := Start (Init 3 ''q'' 1)\<rparr> :: (unit, unit) system)
     None None [CHR 0x20, CHR 0x09, CHR 0xC2, CHR 0xA0] =
     Some (Some ''Id for task is not valid, only uses space characters.'',
           initial 3 ''q'' 1 () \<lparr>queue := Start (Init 3 ''q'' 1)\<rparr>)"
proof -
  have h: "TrimSpace [CHR 0x20, CHR 0x09, CHR 0xC2, CHR 0xA0] = []"
    by (simp add: TrimSpace_def spaceRunes_def)
  from blank_id_rejected[OF h, of "Init 0 [] 0" "initial 3 ''q'' 1 () \<lparr>queue := Start (Init 3 ''q'' 1)\<rparr> :: (unit, unit) system" None None] h
  show ?thesis by (simp add: initial_def Init_def Start_def newRingBuffer_def)
qed

theorem blank_id_counterexample:
  "TrimSpace ''  '' = [] \<and>
   map_option fst (Add (initial 10 ''q'' 5 () :: (unit, unit) system) None None ''  '') \<noteq>
     Some (Some ''Id for task is not valid, only uses space characters.'')"
  by (simp add: eval_defs)

text \<open>
  The allocation bound that does hold: a task is allocated only when the pool is empty
  and the buffer has room, and the tasks outside the buffer are then all being
  processed.
\<close>

lemma task_count_bound:
  "\<exists>s :: ('v, 'w) system.
     run (initial sz name m w) es = Some s \<and>
     taskCount (queue s) = int (length (heap s)) \<and>
     taskCount (queue s) \<le> (if sz \<le> 0 then 1 else sz) + max 0 m"
proof -
  from reachable_inv[of sz name m w es] obtain s :: "('v, 'w) system" where
    "run (initial sz name m w) es = Some s" "sys_inv (if sz \<le> 0 then 1 else sz) m s"
    by blast
  then show ?thesis by (intro exI[of _ s]) (simp add: sys_inv_def)
qed











lemma idle_facts:
  assumes inv: "sys_inv N M s" and M: "M \<le> 0"
  shows "countProcessing (queue s) = 0" "goroutines s = []" "processTask s = Some s"
proof -
  from inv have c: "countProcessing (queue s) = int (length (goroutines s))"
    "countProcessing (queue s) \<le> max 0 M" "maxProcessing (queue s) = M"
    by (simp_all add: sys_inv_def)
  with M show "countProcessing (queue s) = 0" "goroutines s = []" by simp_all
  with c M show "processTask s = Some s" by (simp add: processTask_def)
qed

lemma idle_fire:
  assumes inv: "sys_inv N M s" and M: "M \<le> 0" and pool: "readyTaskPool (queue s) = []"
  shows "\<exists>s'. fire s e = Some s' \<and> sys_inv N M s' \<and> readyTaskPool (queue s') = [] \<and>
           (\<exists>ys. queued (items' (queue s')) = queued (items' (queue s)) @ ys) \<and>
           (\<forall>a. Some a \<in> set (queued (items' (queue s))) \<longrightarrow> heap s' ! a = heap s ! a)"
proof (cases e)
  case EvStart
  with inv pool show ?thesis by (simp add: sys_inv_def cells_def Start_def)
next
  case EvStop
  with inv pool show ?thesis by (simp add: sys_inv_def cells_def Stop_def)
next
  case (EvDone k)
  with idle_facts(2)[OF inv M] inv pool show ?thesis by simp
next
  case (EvAdd act prm ident)
  show ?thesis
  proof (cases "\<not> isRunning (queue s) \<or> IsFull (items' (queue s)) \<or> TrimSpace ident = [] \<or>
      waitingTasksByExternalId (queue s) ident \<noteq> None")
    case True
    from Add_reject[OF this, of act prm] inv pool EvAdd show ?thesis
      by (auto split: if_splits)
  next
    case False
    with Add_admit[OF inv, of ident act prm] pool obtain a s1 s' where
      ad: "Add s act prm ident = Some (None, s')" "processTask s1 = Some s'" "sys_inv N M s1"
      "queued (items' (queue s1)) = queued (items' (queue s)) @ [Some a]"
      "\<forall>b. b \<noteq> a \<longrightarrow> b < length (heap s) \<longrightarrow> heap s1 ! b = heap s ! b"
      "a = length (heap s)" "readyTaskPool (queue s1) = []"
      by auto
    from idle_facts(3)[OF ad(3) M] ad(2) have eq: "s' = s1" by simp
    have "heap s1 ! b = heap s ! b" if "Some b \<in> set (queued (items' (queue s)))" for b
    proof -
      from that have "Some b \<in> set (cells s)" by (simp add: cells_def)
      with inv have "b < length (heap s)" by (auto simp: sys_inv_def)
      with ad(5,6) show ?thesis by simp
    qed
    then have keep: "\<forall>b. Some b \<in> set (queued (items' (queue s))) \<longrightarrow> heap s1 ! b = heap s ! b"
      by blast
    have ex: "\<exists>ys. queued (items' (queue s1)) = queued (items' (queue s)) @ ys"
      using ad(4) by blast
    have "fire s e = Some s1" using EvAdd ad(1) eq by simp
    with ad(3,7) ex keep show ?thesis by blast
  qed
qed

lemma idle_run:
  assumes "sys_inv N M s" "M \<le> 0" "readyTaskPool (queue s) = []"
  shows "\<exists>s'. run s es = Some s' \<and> sys_inv N M s' \<and> readyTaskPool (queue s') = [] \<and>
           (\<exists>ys. queued (items' (queue s')) = queued (items' (queue s)) @ ys) \<and>
           (\<forall>a. Some a \<in> set (queued (items' (queue s))) \<longrightarrow> heap s' ! a = heap s ! a)"
  using assms
proof (induction es arbitrary: s)
  case Nil
  then show ?case by simp
next
  case (Cons e es)
  from idle_fire[OF Cons.prems, of e] obtain s1 ys where
    1: "fire s e = Some s1" "sys_inv N M s1" "readyTaskPool (queue s1) = []"
    "queued (items' (queue s1)) = queued (items' (queue s)) @ ys"
    "\<forall>a. Some a \<in> set (queued (items' (queue s))) \<longrightarrow> heap s1 ! a = heap s ! a" by blast
  from Cons.IH[OF 1(2) Cons.prems(2) 1(3)] obtain s' zs where
    2: "run s1 es = Some s'" "sys_inv N M s'" "readyTaskPool (queue s') = []"
    "queued (items' (queue s')) = queued (items' (queue s1)) @ zs"
    "\<forall>a. Some a \<in> set (queued (items' (queue s1))) \<longrightarrow> heap s' ! a = heap s1 ! a" by blast
  have "queued (items' (queue s')) = queued (items' (queue s)) @ (ys @ zs)"
    using 1(4) 2(4) by simp
  moreover have "\<forall>a. Some a \<in> set (queued (items' (queue s))) \<longrightarrow> heap s' ! a = heap s ! a"
    using 1(4,5) 2(5) by auto
  moreover have "run s (e # es) = Some s'" using 1(1) 2(1) by simp
  ultimately show ?case using 2(2,3) by blast
qed

lemma all_waiting_in_buffer:
  assumes inv: "sys_inv N M s" and M: "M \<le> 0" and pool: "readyTaskPool (queue s) = []"
  shows "set (queued (items' (queue s))) = Some ` {..<length (heap s)}"
    "\<forall>a < length (heap s). state (heap s ! a) = waiting"
    "CurrentSize (items' (queue s)) = taskCount (queue s)"
proof -
  from inv have cs: "set (cells s) = Some ` {..<length (heap s)}"
    and dist: "distinct (cells s)"
    and stq: "\<And>b. Some b \<in> set (queued (items' (queue s))) \<Longrightarrow> state (heap s ! b) = waiting"
    and tc: "taskCount (queue s) = int (length (heap s))"
    and ri: "ring_inv N (items' (queue s))"
    by (simp_all add: sys_inv_def)
  from cs pool idle_facts(2)[OF inv M]
  show q: "set (queued (items' (queue s))) = Some ` {..<length (heap s)}"
    by (simp add: cells_def)
  with stq show "\<forall>a < length (heap s). state (heap s ! a) = waiting" by auto
  have "length (queued (items' (queue s))) = card (set (queued (items' (queue s))))"
    using dist by (simp add: cells_def distinct_card)
  also have "\<dots> = length (heap s)" unfolding q by (simp add: card_image)
  finally have "int (length (queued (items' (queue s)))) = taskCount (queue s)"
    using tc by simp
  moreover have "int (length (queued (items' (queue s)))) = CurrentSize (items' (queue s))"
    using ri by (simp add: queued_def ring_inv_def wf_rb_def)
  ultimately show "CurrentSize (items' (queue s)) = taskCount (queue s)" by simp
qed

text \<open>
  Claim C10. \<^verbatim>\<open>Init\<close> stores a concurrency limit of 0 or less as it is. In every
  state reachable with such a limit nothing is being processed, no goroutine has
  been spawned, the pool is empty and \<^verbatim>\<open>processTask\<close> changes nothing: every task
  ever allocated is in the buffer in the waiting state, and after any further
  events the buffer still begins with the same tasks, unchanged. \<^verbatim>\<open>Add\<close> on the
  running queue with a fresh valid id succeeds while the buffer is not full, which
  is while fewer tasks have been admitted than the capacity, and leaves the new
  task waiting at the end of the buffer.
\<close>

theorem no_dispatch_without_concurrency:
  assumes m: "m \<le> 0"
  shows "maxProcessing (Init sz name m) = m \<and>
         (\<exists>s :: ('v, 'w) system.
            run (initial sz name m w) es = Some s \<and>
            countProcessing (queue s) = 0 \<and> goroutines s = [] \<and>
            readyTaskPool (queue s) = [] \<and> processTask s = Some s \<and>
            set (queued (items' (queue s))) = Some ` {..<length (heap s)} \<and>
            (\<forall>a < length (heap s). state (heap s ! a) = waiting) \<and>
            CurrentSize (items' (queue s)) = taskCount (queue s) \<and>
            IsFull (items' (queue s)) =
              (CurrentSize (items' (queue s)) = MaxSize (items' (queue s))) \<and>
            (\<forall>es'. \<exists>s' ys. run s es' = Some s' \<and>
                 queued (items' (queue s')) = queued (items' (queue s)) @ ys \<and>
                 (\<forall>a < length (heap s). heap s' ! a = heap s ! a)) \<and>
            (\<forall>act prm ident.
                 isRunning (queue s) \<and> \<not> IsFull (items' (queue s)) \<and>
                 TrimSpace ident \<noteq> [] \<and> waitingTasksByExternalId (queue s) ident = None \<longrightarrow>
                 (\<exists>s'. Add s act prm ident = Some (None, s') \<and>
                       CurrentSize (items' (queue s')) = CurrentSize (items' (queue s)) + 1 \<and>
                       queued (items' (queue s')) =
                         queued (items' (queue s)) @ [Some (length (heap s))] \<and>
                       externalId (heap s' ! length (heap s)) = ident \<and>
                       state (heap s' ! length (heap s)) = waiting)))"
proof -
  let ?N = "if sz \<le> 0 then 1 else sz"
  have i0: "sys_inv ?N m (initial sz name m w :: ('v, 'w) system)" by (rule initial_inv)
  have p0: "readyTaskPool (queue (initial sz name m w :: ('v, 'w) system)) = []"
    by (simp add: initial_def Init_def)
  from idle_run[OF i0 m p0, of es] obtain s :: "('v, 'w) system" where
    r: "run (initial sz name m w) es = Some s" and inv: "sys_inv ?N m s"
    and pool: "readyTaskPool (queue s) = []" by blast
  note idle = idle_facts[OF inv m]
  note allw = all_waiting_in_buffer[OF inv m pool]
  from inv have full: "IsFull (items' (queue s)) =
              (CurrentSize (items' (queue s)) = MaxSize (items' (queue s)))"
    by (simp add: sys_inv_def ring_inv_def wf_rb_def)
  have fut: "\<exists>s' ys. run s es' = Some s' \<and>
                 queued (items' (queue s')) = queued (items' (queue s)) @ ys \<and>
                 (\<forall>a < length (heap s). heap s' ! a = heap s ! a)" for es'
  proof -
    from idle_run[OF inv m pool, of es'] obtain s' ys where
      "run s es' = Some s'" "queued (items' (queue s')) = queued (items' (queue s)) @ ys"
      "\<forall>a. Some a \<in> set (queued (items' (queue s))) \<longrightarrow> heap s' ! a = heap s ! a" by blast
    with allw(1) show ?thesis by auto
  qed
  have adm: "\<exists>s'. Add s act prm ident = Some (None, s') \<and>
                       CurrentSize (items' (queue s')) = CurrentSize (items' (queue s)) + 1 \<and>
                       queued (items' (queue s')) =
                         queued (items' (queue s)) @ [Some (length (heap s))] \<and>
                       externalId (heap s' ! length (heap s)) = ident \<and>
                       state (heap s' ! length (heap s)) = waiting"
    if h: "isRunning (queue s) \<and> \<not> IsFull (items' (queue s)) \<and>
                 TrimSpace ident \<noteq> [] \<and> waitingTasksByExternalId (queue s) ident = None"
    for act prm ident
  proof -
    from h have h': "isRunning (queue s)" "\<not> IsFull (items' (queue s))"
      "TrimSpace ident \<noteq> []" "waitingTasksByExternalId (queue s) ident = None" by simp_all
    from Add_admit[OF inv h', of act prm] obtain a s1 s' where
      ad0: "Add s act prm ident = Some (None, s')" "processTask s1 = Some s'" "sys_inv ?N m s1"
      "queued (items' (queue s1)) = queued (items' (queue s)) @ [Some a]"
      "externalId (heap s1 ! a) = ident"
      "CurrentSize (items' (queue s1)) = CurrentSize (items' (queue s)) + 1"
      and how: "if readyTaskPool (queue s) = []
            then a = length (heap s) \<and> taskCount (queue s1) = taskCount (queue s) + 1 \<and>
                 readyTaskPool (queue s1) = []
            else Some a = last (readyTaskPool (queue s)) \<and>
                 taskCount (queue s1) = taskCount (queue s) \<and>
                 readyTaskPool (queue s1) = butlast (readyTaskPool (queue s))"
      by blast
    from how pool have "a = length (heap s)" by simp
    note ad = ad0 this
    from idle_facts(3)[OF ad(3) m] ad(2) have eq: "s' = s1" by simp
    from ad(3,4) have "state (heap s1 ! a) = waiting" by (simp add: sys_inv_def)
    with ad eq show ?thesis by simp
  qed
  have mp: "maxProcessing (Init sz name m) = m" by (simp add: Init_def Let_def)
  have a1: "\<forall>es'. \<exists>s' ys. run s es' = Some s' \<and>
                 queued (items' (queue s')) = queued (items' (queue s)) @ ys \<and>
                 (\<forall>a < length (heap s). heap s' ! a = heap s ! a)"
    using fut by blast
  have a2: "\<forall>act prm ident.
                 isRunning (queue s) \<and> \<not> IsFull (items' (queue s)) \<and>
                 TrimSpace ident \<noteq> [] \<and> waitingTasksByExternalId (queue s) ident = None \<longrightarrow>
                 (\<exists>s'. Add s act prm ident = Some (None, s') \<and>
                       CurrentSize (items' (queue s')) = CurrentSize (items' (queue s)) + 1 \<and>
                       queued (items' (queue s')) =
                         queued (items' (queue s)) @ [Some (length (heap s))] \<and>
                       externalId (heap s' ! length (heap s)) = ident \<and>
                       state (heap s' ! length (heap s)) = waiting)"
    using adm by blast
  show ?thesis
    apply (rule conjI[OF mp])
    apply (rule exI[of _ s])
    apply (intro conjI)
              apply (rule r)
             apply (rule idle(1))
            apply (rule idle(2))
           apply (rule pool)
          apply (rule idle(3))
         apply (rule allw(1))
        apply (rule allw(2))
       apply (rule allw(3))
      apply (rule full)
     apply (rule a1)
    apply (rule a2)
    done
qed

theorem no_dispatch_without_concurrency_witness:
  "(0::int) \<le> 0 \<and>
   (\<exists>s s' :: (unit, unit) system.
      run (initial 2 ''q'' 0 ()) [EvStart, EvAdd None None ''id-1''] = Some s \<and>
      countProcessing (queue s) = 0 \<and> goroutines s = [] \<and> processTask s = Some s \<and>
      length (heap s) = 1 \<and> state (heap s ! 0) = waiting \<and>
      isRunning (queue s) \<and> \<not> IsFull (items' (queue s)) \<and> TrimSpace ''id-2'' \<noteq> [] \<and>
      waitingTasksByExternalId (queue s) ''id-2'' = None \<and>
      Add s None None ''id-2'' = Some (None, s') \<and>
      CurrentSize (items' (queue s')) = 2 \<and> state (heap s' ! 1) = waiting)"
proof -
  let ?es = "[EvStart, EvAdd None None ''id-1''] :: (unit, unit) event list"
  let ?s = "the (run (initial 2 ''q'' 0 ()) ?es)"
  have m0: "(0::int) \<le> 0" by simp
  have r: "run (initial 2 ''q'' 0 ()) ?es = Some ?s"
    by (simp add: eval_defs)
  have h: "isRunning (queue ?s) \<and> \<not> IsFull (items' (queue ?s)) \<and> TrimSpace ''id-2'' \<noteq> [] \<and>
      waitingTasksByExternalId (queue ?s) ''id-2'' = None"
    by (simp add: eval_defs)
  have l: "length (heap ?s) = 1" "CurrentSize (items' (queue ?s)) = 1"
    by (simp_all add: eval_defs)
  from no_dispatch_without_concurrency[OF m0, of 2 "''q''" "()" ?es]
  obtain s :: "(unit, unit) system" where
    s: "run (initial 2 ''q'' 0 ()) ?es = Some s"
    "countProcessing (queue s) = 0" "goroutines s = []" "processTask s = Some s"
    "\<forall>a < length (heap s). state (heap s ! a) = waiting"
    "\<forall>act prm ident.
                 isRunning (queue s) \<and> \<not> IsFull (items' (queue s)) \<and>
                 TrimSpace ident \<noteq> [] \<and> waitingTasksByExternalId (queue s) ident = None \<longrightarrow>
                 (\<exists>s'. Add s act prm ident = Some (None, s') \<and>
                       CurrentSize (items' (queue s')) = CurrentSize (items' (queue s)) + 1 \<and>
                       queued (items' (queue s')) =
                         queued (items' (queue s)) @ [Some (length (heap s))] \<and>
                       externalId (heap s' ! length (heap s)) = ident \<and>
                       state (heap s' ! length (heap s)) = waiting)"
    by blast
  from s(1) r have eq: "s = ?s" by simp
  from s(6) h eq obtain s' where
    a: "Add ?s None None ''id-2'' = Some (None, s')"
    "CurrentSize (items' (queue s')) = CurrentSize (items' (queue ?s)) + 1"
    "state (heap s' ! length (heap ?s)) = waiting"
    by blast
  from s(5) l eq have w: "state (heap ?s ! 0) = waiting" by simp
  show ?thesis
    apply (rule conjI[OF m0])
    apply (rule exI[of _ ?s], rule exI[of _ s'])
    using r s(2,3,4) eq h l w a by simp
qed

end
